theory Spec2Isabelle
  imports Complex_Main
begin

section \<open>Data model\<close>

text \<open>
  The page component of Pixlim (\<^verbatim>\<open>src/app/page.tsx\<close>) keeps an ordered list of
  \<^verbatim>\<open>CompressedImage\<close> records in React state and drives it with a handful of handlers;
  \<^verbatim>\<open>lib/image-processing\<close> wraps the compression and archive libraries.

  Field names follow the source. \<^verbatim>\<open>id\<close>, \<^verbatim>\<open>file\<close> and \<^verbatim>\<open>size\<close> cannot be used as
  they stand (a HOL constant, a keyword, a HOL constant), so they appear as \<open>img_id\<close>,
  \<open>img_file\<close> and \<open>fsize\<close>. JavaScript \<^verbatim>\<open>null\<close>/\<^verbatim>\<open>undefined\<close> is \<open>None\<close>.
\<close>

datatype Status = Pending | Compressing | Completed | Error

record File =
  name :: string
  type :: string
  fsize :: nat

text \<open>A \<^verbatim>\<open>Blob\<close> is its byte content; \<^verbatim>\<open>blob.size\<close> is the number of bytes.\<close>

datatype Blob = Blob "nat list"

fun blob_size :: "Blob \<Rightarrow> nat" where
  "blob_size (Blob bs) = length bs"

record CompressedImage =
  img_id :: string
  img_file :: File
  originalUrl :: string
  originalSize :: nat
  compressedUrl :: "string option"
  compressedBlob :: "Blob option"
  compressedSize :: "nat option"
  status :: Status
  error :: "string option"
  quality :: nat

section \<open>Strings\<close>

text \<open>\<^verbatim>\<open>s.startsWith(p)\<close>.\<close>

definition startsWith :: "string \<Rightarrow> string \<Rightarrow> bool" where
  "startsWith s p = (take (length p) s = p)"

text \<open>Decimal digits of a natural number, as a template literal prints an integer.\<close>

fun string_of_nat :: "nat \<Rightarrow> string" where
  "string_of_nat n =
     (if n < 10 then [''0123456789'' ! n]
      else string_of_nat (n div 10) @ [''0123456789'' ! (n mod 10)])"

section \<open>Download names (\<^verbatim>\<open>getFileExtension\<close> and the name template)\<close>

text \<open>
  \<^verbatim>\<open>getFileExtension\<close> is a \<^verbatim>\<open>switch\<close> on the whole MIME string with a default branch.
\<close>

definition getFileExtension :: "string \<Rightarrow> string" where
  "getFileExtension mimeType =
     (if mimeType = ''image/jpeg'' then ''jpg''
      else if mimeType = ''image/png'' then ''png''
      else if mimeType = ''image/webp'' then ''webp''
      else ''bin'')"

text \<open>
  \<^verbatim>\<open>name.replace(/\.[^/.]+$/, "")\<close>: the pattern is a dot, then one or more characters
  that are neither a slash nor a dot, then the end of the string. \<open>extMatchAt s i\<close> says
  that the pattern matches starting at index \<open>i\<close>; \<^verbatim>\<open>replace\<close> removes the leftmost match,
  which reaches to the end of the string, and leaves the string alone when there is none.
\<close>

definition extMatchAt :: "string \<Rightarrow> nat \<Rightarrow> bool" where
  "extMatchAt s i =
     (i < length s \<and> s ! i = CHR ''.'' \<and> drop (Suc i) s \<noteq> [] \<and>
      list_all (\<lambda>c. c \<noteq> CHR ''/'' \<and> c \<noteq> CHR ''.'') (drop (Suc i) s))"

definition stripExtension :: "string \<Rightarrow> string" where
  "stripExtension s =
     (case find (extMatchAt s) [0..<length s] of
        None \<Rightarrow> s
      | Some i \<Rightarrow> take i s)"

text \<open>The template literal used by all three download sites.\<close>

definition downloadName :: "CompressedImage \<Rightarrow> string" where
  "downloadName img =
     ''compressed_'' @ stripExtension (name (img_file img)) @ ''.'' @
     getFileExtension (type (img_file img))"

section \<open>Export\<close>

text \<open>
  What a handler does to the outside world is a list of actions: a click on an anchor
  whose \<^verbatim>\<open>download\<close> attribute is the given name and whose \<^verbatim>\<open>href\<close> is an object URL of
  the given blob, or an \<^verbatim>\<open>alert\<close>.
\<close>

datatype Action = Download string Blob | Alert string

text \<open>\<^verbatim>\<open>handleDownload\<close> of an image card (export of one record).\<close>

definition handleDownload :: "CompressedImage \<Rightarrow> Action list" where
  "handleDownload img =
     (case compressedBlob img of
        None \<Rightarrow> []
      | Some blob \<Rightarrow> [Download (downloadName img) blob])"

text \<open>
  \<^verbatim>\<open>createZip\<close> hands every entry to a fresh JSZip object with \<^verbatim>\<open>zip.file(name, blob)\<close>
  and asks it for the archive. JSZip is a library outside the repository. Its object
  keeps one entry per name: \<^verbatim>\<open>zip.file\<close> adds the entry, or replaces the entry that
  already has that name. The object is modelled as the list of its entries;
  \<^verbatim>\<open>generateAsync\<close> is the parameter \<open>generate\<close>, which turns the entries into the archive
  blob or rejects with a message.
\<close>

type_synonym JSZip = "(string \<times> Blob) list"

definition zip_file :: "string \<times> Blob \<Rightarrow> JSZip \<Rightarrow> JSZip" where
  "zip_file entry z =
     (if fst entry \<in> fst ` set z
      then map (\<lambda>e. if fst e = fst entry then entry else e) z
      else z @ [entry])"

definition createZip :: "(JSZip \<Rightarrow> string + Blob) \<Rightarrow> (string \<times> Blob) list \<Rightarrow> string + Blob" where
  "createZip generate files = generate (fold zip_file files [])"

text \<open>\<^verbatim>\<open>handleDownloadAll\<close>.\<close>

definition completedImages :: "CompressedImage list \<Rightarrow> CompressedImage list" where
  "completedImages imgs =
     filter (\<lambda>img. status img = Completed \<and> compressedBlob img \<noteq> None) imgs"

definition filesToZip :: "CompressedImage list \<Rightarrow> (string \<times> Blob) list" where
  "filesToZip imgs =
     concat (map (\<lambda>img. case compressedBlob img of
                           None \<Rightarrow> []
                         | Some blob \<Rightarrow> [(downloadName img, blob)]) imgs)"

definition handleDownloadAll ::
  "(JSZip \<Rightarrow> string + Blob) \<Rightarrow> CompressedImage list \<Rightarrow> Action list" where
  "handleDownloadAll generate imgs =
     (case completedImages imgs of
        [] \<Rightarrow> []
      | [img] \<Rightarrow>
          (case compressedBlob img of
             None \<Rightarrow> []
           | Some blob \<Rightarrow> [Download (downloadName img) blob])
      | cs \<Rightarrow>
          (case createZip generate (filesToZip cs) of
             Inr zipBlob \<Rightarrow> [Download ''LitePress_Compressed_Images.zip'' zipBlob]
           | Inl err \<Rightarrow> [Alert ''Failed to create ZIP file.'']))"

section \<open>Byte formatting (\<^verbatim>\<open>formatBytes\<close>)\<close>

text \<open>
  \<^verbatim>\<open>formatBytes\<close> finds the unit with \<^verbatim>\<open>Math.floor(Math.log(bytes) / Math.log(k))\<close>. The
  engine computes the two logarithms and their quotient in IEEE doubles, and what
  \<^verbatim>\<open>Math.log\<close> returns is left to the engine. The value of the whole expression is
  therefore a parameter of the model: \<open>floorLog bytes k\<close>.

  The quotient \<^verbatim>\<open>bytes / Math.pow(k, i)\<close> divides an integer below \<open>2 ^ 53\<close> by a power of two,
  which is exact in doubles, so it is the real quotient. \<^verbatim>\<open>x.toFixed(2)\<close> picks the
  integer \<open>n\<close> for which \<open>n / 100\<close> is closest to \<open>x\<close>, the larger one on a tie;
  \<open>toFixed2\<close> returns that \<open>n\<close>. \<^verbatim>\<open>Number.parseFloat\<close> followed by string concatenation
  prints the value without trailing zeros, which is what \<open>numberToString\<close> does for a
  count of hundredths.
\<close>

definition toFixed2 :: "real \<Rightarrow> nat" where
  "toFixed2 x = nat \<lfloor>x * 100 + 1 / 2\<rfloor>"

definition numberToString :: "nat \<Rightarrow> string" where
  "numberToString h =
     (let ip = h div 100; fp = h mod 100 in
      if fp = 0 then string_of_nat ip
      else if fp mod 10 = 0 then string_of_nat ip @ ''.'' @ string_of_nat (fp div 10)
      else string_of_nat ip @ ''.'' @ string_of_nat (fp div 10) @ string_of_nat (fp mod 10))"

definition sizes :: "string list" where
  "sizes = [''Bytes'', ''KB'', ''MB'', ''GB'', ''TB'']"

text \<open>Reading past the end of the array gives \<^verbatim>\<open>undefined\<close>, printed as such.\<close>

definition sizes_at :: "nat \<Rightarrow> string" where
  "sizes_at i = (if i < length sizes then sizes ! i else ''undefined'')"

definition formatBytes :: "(nat \<Rightarrow> nat \<Rightarrow> nat) \<Rightarrow> nat option \<Rightarrow> string" where
  "formatBytes floorLog bytes =
     (case bytes of
        None \<Rightarrow> ''N/A''
      | Some b \<Rightarrow>
          if b = 0 then ''0 Bytes''
          else
            let k = (1024 :: nat);
                i = floorLog b k
            in numberToString (toFixed2 (real b / real (k ^ i))) @ '' '' @ sizes_at i)"


text \<open>
  The integer logarithm, and the exponent that double arithmetic gives for sizes below
  \<open>2 ^ 53\<close>: the integer logarithm, except for the three sizes just below \<open>2 ^ 50\<close>,
  whose logarithm rounds to that of \<open>2 ^ 50\<close>, so that the quotient is exactly 5.
\<close>

fun exactFloorLog :: "nat \<Rightarrow> nat \<Rightarrow> nat" where
  "exactFloorLog b k = (if k < 2 \<or> b < k then 0 else Suc (exactFloorLog (b div k) k))"

definition doubleFloorLog :: "nat \<Rightarrow> nat \<Rightarrow> nat" where
  "doubleFloorLog b k =
     (if k = 1024 \<and> 2 ^ 50 - 3 \<le> b \<and> b < 2 ^ 50 then 5 else exactFloorLog b k)"

section \<open>Intake\<close>

text \<open>The MIME test that both intake paths apply to a file.\<close>

definition accepted :: "File \<Rightarrow> bool" where
  "accepted f =
     (startsWith (type f) ''image/jpeg'' \<or> startsWith (type f) ''image/png'' \<or>
      startsWith (type f) ''image/webp'')"

text \<open>
  A dropped entry is a file or a directory. A directory is read through a
  \<^verbatim>\<open>FileSystemDirectoryReader\<close>, whose \<^verbatim>\<open>readEntries\<close> hands the entries over in successive
  batches, one per call, until a call returns an empty array. A directory is therefore
  modelled by the list of batches that successive calls on one reader return.
\<close>

datatype FileSystemEntry = FileEntry File | DirectoryEntry "FileSystemEntry list list"

text \<open>
  \<^verbatim>\<open>processEntry\<close> pushes accepted files onto \<^verbatim>\<open>files\<close>. For a directory it creates a
  reader, calls \<^verbatim>\<open>readEntries\<close> once, and recurses into the entries of that call.
\<close>

fun processEntry :: "FileSystemEntry \<Rightarrow> File list \<Rightarrow> File list" where
  "processEntry (FileEntry f) files = (if accepted f then files @ [f] else files)"
| "processEntry (DirectoryEntry []) files = files"
| "processEntry (DirectoryEntry (entries # later)) files = fold processEntry entries files"

text \<open>
  A \<^verbatim>\<open>DataTransferItem\<close>: its kind, what \<^verbatim>\<open>webkitGetAsEntry\<close> returns and what
  \<^verbatim>\<open>getAsFile\<close> returns.
\<close>

datatype DataTransferItem =
  StringItem
| FileItem "FileSystemEntry option" "File option"

fun dropItem :: "DataTransferItem \<Rightarrow> File list \<Rightarrow> File list" where
  "dropItem StringItem files = files"
| "dropItem (FileItem (Some entry) f) files = processEntry entry files"
| "dropItem (FileItem None (Some f)) files = (if accepted f then files @ [f] else files)"
| "dropItem (FileItem None None) files = files"

text \<open>The files that \<^verbatim>\<open>handleDrop\<close> and \<^verbatim>\<open>handleFileSelect\<close> pass to \<^verbatim>\<open>processFiles\<close>.\<close>

definition handleDrop_files :: "DataTransferItem list \<Rightarrow> File list" where
  "handleDrop_files droppedItems = fold dropItem droppedItems []"

definition handleFileSelect_files :: "File list \<Rightarrow> File list" where
  "handleFileSelect_files fs = filter accepted fs"

text \<open>
  \<^verbatim>\<open>processFiles\<close> builds one pending record per file from the file, the data URL that
  \<^verbatim>\<open>readFileAsDataURL\<close> produced for it and the reading of \<^verbatim>\<open>Date.now()\<close> at that moment.
\<close>

definition newImage :: "nat \<Rightarrow> File \<times> string \<times> nat \<Rightarrow> CompressedImage" where
  "newImage q x =
     (case x of (f, url, now) \<Rightarrow>
        \<lparr> img_id = name f @ ''-'' @ string_of_nat now,
          img_file = f,
          originalUrl = url,
          originalSize = fsize f,
          compressedUrl = None,
          compressedBlob = None,
          compressedSize = None,
          status = Pending,
          error = None,
          quality = q \<rparr>)"

text \<open>
  All entries of every batch of a directory tree, for comparison with what
  \<^verbatim>\<open>processEntry\<close> visits.
\<close>

fun allFiles :: "FileSystemEntry \<Rightarrow> File list" where
  "allFiles (FileEntry f) = [f]"
| "allFiles (DirectoryEntry batches) = concat (map (\<lambda>b. concat (map allFiles b)) batches)"

section \<open>The compression pipeline\<close>

text \<open>
  \<^verbatim>\<open>compressImage\<close> awaits the compression library. The library's outcome for the call is
  the argument \<open>lib\<close>: \<open>Inr (blob, dataUrl)\<close> when both library calls succeed, \<open>Inl m\<close>
  when one of them throws, \<open>m\<close> being the message of the thrown error. A failure is
  rethrown as a new error whose message names the file.
\<close>

type_synonym Outcome = "string + Blob \<times> string"

definition compressImage :: "File \<Rightarrow> nat \<Rightarrow> Outcome \<Rightarrow> Outcome" where
  "compressImage f q lib =
     (case lib of
        Inr r \<Rightarrow> Inr r
      | Inl m \<Rightarrow> Inl (''Failed to compress image: '' @ name f @ ''. '' @ m))"

text \<open>
  The body of the callback of \<^verbatim>\<open>compressAllImages\<close> after \<^verbatim>\<open>await compressImage\<close>:
  what it returns on success and what its \<^verbatim>\<open>catch\<close> returns.
\<close>

definition resolveImage :: "nat \<Rightarrow> CompressedImage \<Rightarrow> Outcome \<Rightarrow> CompressedImage" where
  "resolveImage q img lib =
     (case compressImage (img_file img) q lib of
        Inr (blob, dataUrl) \<Rightarrow>
          img\<lparr> compressedUrl := Some dataUrl,
               compressedBlob := Some blob,
               compressedSize := Some (blob_size blob),
               status := Completed,
               quality := q,
               error := None \<rparr>
      | Inl msg \<Rightarrow>
          img\<lparr> compressedUrl := None,
               compressedBlob := None,
               compressedSize := None,
               status := Error,
               error := Some (if msg = [] then ''Compression failed'' else msg),
               quality := q \<rparr>)"

text \<open>The guard at the head of the callback: a record that failed at this quality.\<close>

definition skipped :: "nat \<Rightarrow> CompressedImage \<Rightarrow> bool" where
  "skipped q img = (status img = Error \<and> quality img = q)"

text \<open>The updater passed to \<^verbatim>\<open>setImages\<close> before the pipeline is awaited.\<close>

definition markCompressing :: "nat \<Rightarrow> CompressedImage \<Rightarrow> CompressedImage list \<Rightarrow> CompressedImage list" where
  "markCompressing q img prev =
     map (\<lambda>i. if img_id i = img_id img then i\<lparr> status := Compressing, quality := q \<rparr> else i) prev"

section \<open>Collection state\<close>

text \<open>
  One callback of the \<^verbatim>\<open>Promise.all\<close> in \<^verbatim>\<open>compressAllImages\<close>: the record it was called
  with and, once its promise has settled, the record it returned.
\<close>

record Task =
  task_img :: CompressedImage
  task_result :: "CompressedImage option"

text \<open>A call of \<^verbatim>\<open>compressAllImages\<close> whose \<^verbatim>\<open>Promise.all\<close> has not settled yet.\<close>

record Batch =
  batch_quality :: nat
  batch_tasks :: "Task list"

text \<open>
  The state of the page: the two pieces of React state, the batches in flight, and for
  every intake handler that has started but not yet reached the body of
  \<^verbatim>\<open>processFiles\<close> the values of \<^verbatim>\<open>images\<close> and \<^verbatim>\<open>compressionQuality\<close> it closed over.
\<close>

record AppState =
  images :: "CompressedImage list"
  compressionQuality :: nat
  batches :: "Batch list"
  intakes :: "(CompressedImage list \<times> nat) list"

definition initialState :: AppState where
  "initialState = \<lparr> images = [], compressionQuality = 80, batches = [], intakes = [] \<rparr>"

text \<open>\<^verbatim>\<open>Promise.all\<close>: the results in order once every task has settled.\<close>

fun promiseAll :: "Task list \<Rightarrow> CompressedImage list option" where
  "promiseAll [] = Some []"
| "promiseAll (t # ts) =
     (case task_result t of
        None \<Rightarrow> None
      | Some r \<Rightarrow> (case promiseAll ts of None \<Rightarrow> None | Some rs \<Rightarrow> Some (r # rs)))"

text \<open>
  The synchronous part of one callback: a skipped record is returned at once, any
  other one is marked in the state and its task waits for the pipeline.
\<close>

definition startTask :: "nat \<Rightarrow> CompressedImage \<Rightarrow> Task" where
  "startTask q img =
     \<lparr> task_img = img, task_result = (if skipped q img then Some img else None) \<rparr>"

definition startMarks :: "nat \<Rightarrow> CompressedImage list \<Rightarrow> CompressedImage list \<Rightarrow> CompressedImage list" where
  "startMarks q currentImages prev =
     fold (\<lambda>img p. if skipped q img then p else markCompressing q img p) currentImages prev"

text \<open>
  \<^verbatim>\<open>compressAllImages\<close> up to its \<^verbatim>\<open>await\<close>. When no callback has anything to wait for,
  the \<^verbatim>\<open>Promise.all\<close> settles in the same turn and \<^verbatim>\<open>setImages(updatedImages)\<close> follows
  at once.
\<close>

definition compressAllImages :: "nat \<Rightarrow> CompressedImage list \<Rightarrow> AppState \<Rightarrow> AppState" where
  "compressAllImages q currentImages s =
     (let marked = startMarks q currentImages (images s);
          ts = map (startTask q) currentImages
      in case promiseAll ts of
           Some updatedImages \<Rightarrow> s\<lparr> images := updatedImages \<rparr>
         | None \<Rightarrow>
             s\<lparr> images := marked,
                batches := batches s @ [\<lparr> batch_quality = q, batch_tasks = ts \<rparr>] \<rparr>)"

text \<open>
  The pipeline call of task \<open>i\<close> of batch \<open>b\<close> settles with outcome \<open>lib\<close>. The result is
  stored with the task; when it was the last one outstanding, the continuation of
  \<^verbatim>\<open>compressAllImages\<close> runs: \<^verbatim>\<open>setImages(updatedImages)\<close>.
\<close>

definition removeAt :: "nat \<Rightarrow> 'a list \<Rightarrow> 'a list" where
  "removeAt n xs = take n xs @ drop (Suc n) xs"

definition settle :: "nat \<Rightarrow> nat \<Rightarrow> Outcome \<Rightarrow> AppState \<Rightarrow> AppState" where
  "settle b i lib s =
     (let B = batches s ! b;
          t = batch_tasks B ! i;
          r = resolveImage (batch_quality B) (task_img t) lib;
          ts = (batch_tasks B)[i := t\<lparr> task_result := Some r \<rparr>]
      in case promiseAll ts of
           None \<Rightarrow> s\<lparr> batches := (batches s)[b := B\<lparr> batch_tasks := ts \<rparr>] \<rparr>
         | Some updatedImages \<Rightarrow>
             s\<lparr> images := updatedImages, batches := removeAt b (batches s) \<rparr>)"

text \<open>\<^verbatim>\<open>handleRemoveImage\<close>.\<close>

definition handleRemoveImage :: "string \<Rightarrow> AppState \<Rightarrow> AppState" where
  "handleRemoveImage rid s = s\<lparr> images := filter (\<lambda>img. img_id img \<noteq> rid) (images s) \<rparr>"

text \<open>
  The body of \<^verbatim>\<open>processFiles\<close> after the data URLs have been read. \<open>closedImages\<close> and
  \<open>closedQuality\<close> are the values of \<^verbatim>\<open>images\<close> and \<^verbatim>\<open>compressionQuality\<close> in the closure
  of the handler.
\<close>

definition processFiles ::
  "CompressedImage list \<Rightarrow> nat \<Rightarrow> (File \<times> string \<times> nat) list \<Rightarrow> AppState \<Rightarrow> AppState" where
  "processFiles closedImages closedQuality newFiles s =
     (let newImages = map (newImage closedQuality) newFiles
      in compressAllImages closedQuality (closedImages @ newImages)
           (s\<lparr> images := images s @ newImages \<rparr>))"

text \<open>
  Moving the slider stores the new value; the effect that depends on
  \<^verbatim>\<open>compressionQuality\<close> then runs \<^verbatim>\<open>compressAllImages\<close> over the current collection
  when that is not empty. Setting the value it already has changes nothing.
\<close>

definition setCompressionQuality :: "nat \<Rightarrow> AppState \<Rightarrow> AppState" where
  "setCompressionQuality q s =
     (if q = compressionQuality s then s
      else
        let s1 = s\<lparr> compressionQuality := q \<rparr>
        in if images s1 \<noteq> [] then compressAllImages q (images s1) s1 else s1)"

text \<open>
  Events of the page. \<open>BeginIntake\<close> is a drop or a file selection: the handler starts
  with the state of the last render in its closure. \<open>ProcessFiles k fs\<close> is the \<open>k\<close>-th
  started intake reaching the body of \<^verbatim>\<open>processFiles\<close> with its accepted files.
  \<open>Settle b i lib\<close> is the pipeline call of task \<open>i\<close> of batch \<open>b\<close> coming back.
\<close>

datatype Event =
  SetCompressionQuality nat
| BeginIntake
| ProcessFiles nat "(File \<times> string \<times> nat) list"
| Settle nat nat Outcome
| RemoveImage string

fun step :: "Event \<Rightarrow> AppState \<Rightarrow> AppState option" where
  "step (SetCompressionQuality q) s = Some (setCompressionQuality q s)"
| "step BeginIntake s =
     Some (s\<lparr> intakes := intakes s @ [(images s, compressionQuality s)] \<rparr>)"
| "step (ProcessFiles k fs) s =
     (if k < length (intakes s)
      then Some (processFiles (fst (intakes s ! k)) (snd (intakes s ! k)) fs
                   (s\<lparr> intakes := removeAt k (intakes s) \<rparr>))
      else None)"
| "step (Settle b i lib) s =
     (if b < length (batches s) \<and> i < length (batch_tasks (batches s ! b)) \<and>
         task_result (batch_tasks (batches s ! b) ! i) = None
      then Some (settle b i lib s)
      else None)"
| "step (RemoveImage rid) s = Some (handleRemoveImage rid s)"

fun run :: "Event list \<Rightarrow> AppState \<Rightarrow> AppState option" where
  "run [] s = Some s"
| "run (e # es) s = (case step e s of None \<Rightarrow> None | Some s' \<Rightarrow> run es s')"

text \<open>The collection that an observer sees after a sequence of events from page load.\<close>

definition imagesAfter :: "Event list \<Rightarrow> CompressedImage list" where
  "imagesAfter es = (case run es initialState of None \<Rightarrow> [] | Some s \<Rightarrow> images s)"

section \<open>Predicates on records and states\<close>

text \<open>
  \<open>all_records P s\<close>: every record that the state holds anywhere (the collection, the
  records and results of the tasks in flight, the collections closed over by started
  intakes) satisfies \<open>P\<close>.
\<close>

definition task_records :: "(CompressedImage \<Rightarrow> bool) \<Rightarrow> Task \<Rightarrow> bool" where
  "task_records P t =
     (P (task_img t) \<and> (case task_result t of None \<Rightarrow> True | Some r \<Rightarrow> P r))"

definition all_records :: "(CompressedImage \<Rightarrow> bool) \<Rightarrow> AppState \<Rightarrow> bool" where
  "all_records P s =
     (list_all P (images s) \<and>
      list_all (\<lambda>B. list_all (task_records P) (batch_tasks B)) (batches s) \<and>
      list_all (\<lambda>c. list_all P (fst c)) (intakes s))"

text \<open>The two record invariants as the data model words them.\<close>

definition payload_iff_completed :: "CompressedImage \<Rightarrow> bool" where
  "payload_iff_completed r =
     ((compressedBlob r \<noteq> None \<or> compressedUrl r \<noteq> None) \<longleftrightarrow> status r = Completed)"

definition error_iff_error_status :: "CompressedImage \<Rightarrow> bool" where
  "error_iff_error_status r = (error r \<noteq> None \<longleftrightarrow> status r = Error)"

text \<open>What holds of them in every state: nothing is said about a record that is being compressed.\<close>

definition payload_inv :: "CompressedImage \<Rightarrow> bool" where
  "payload_inv r =
     ((status r = Completed \<longrightarrow> compressedBlob r \<noteq> None \<and> compressedUrl r \<noteq> None) \<and>
      (status r = Pending \<or> status r = Error \<longrightarrow>
         compressedBlob r = None \<and> compressedUrl r = None))"

definition error_inv :: "CompressedImage \<Rightarrow> bool" where
  "error_inv r =
     ((status r = Error \<longrightarrow> error r \<noteq> None \<and> error r \<noteq> Some []) \<and>
      (status r = Pending \<or> status r = Completed \<longrightarrow> error r = None))"

section \<open>Sample inputs\<close>

definition photo :: File where
  "photo = \<lparr> name = ''photo.jpg'', type = ''image/jpeg'', fsize = 3000 \<rparr>"

definition logo :: File where
  "logo = \<lparr> name = ''logo.png'', type = ''image/png'', fsize = 512 \<rparr>"

definition banner :: File where
  "banner = \<lparr> name = ''banner.webp'', type = ''image/webp'', fsize = 20000 \<rparr>"

text \<open>
  Three files are taken in together; the first and the third are compressed, the second
  fails.
\<close>

definition threeImages :: "Event list" where
  "threeImages =
     [BeginIntake,
      ProcessFiles 0
        [(photo, ''data:o'', 1000), (logo, ''data:p'', 1001), (banner, ''data:q'', 1002)],
      Settle 0 0 (Inr (Blob [1, 2, 3], ''data:c'')),
      Settle 0 1 (Inl ''decode failed''),
      Settle 0 2 (Inr (Blob [4, 5], ''data:d''))]"

text \<open>An archive generator that succeeds and records the size of every entry.\<close>

definition storeOnly :: "JSZip \<Rightarrow> string + Blob" where
  "storeOnly z = Inr (Blob (map (\<lambda>e. blob_size (snd e)) z))"

text \<open>A directory tree in which every reader hands over all its entries in one call.\<close>

fun singleBatch :: "FileSystemEntry \<Rightarrow> bool" where
  "singleBatch (FileEntry f) = True"
| "singleBatch (DirectoryEntry bs) =
     (length bs \<le> 1 \<and> list_all (\<lambda>b. list_all singleBatch b) bs)"

text \<open>Two files are taken in together; both pipeline calls are still out.\<close>

definition twoImages :: "Event list" where
  "twoImages =
     [BeginIntake,
      ProcessFiles 0 [(photo, ''data:o'', 1000), (logo, ''data:p'', 1001)]]"



text \<open>
  Two files whose names differ only in the spelling of the extension are compressed.
\<close>

definition photoJpeg :: File where
  "photoJpeg = \<lparr> name = ''photo.jpeg'', type = ''image/jpeg'', fsize = 4000 \<rparr>"

definition sameStem :: "Event list" where
  "sameStem =
     [BeginIntake,
      ProcessFiles 0 [(photo, ''data:o'', 1000), (photoJpeg, ''data:p'', 1001)],
      Settle 0 0 (Inr (Blob [1, 2, 3], ''data:c'')),
      Settle 0 1 (Inr (Blob [4, 5], ''data:d''))]"








section \<open>Basic facts\<close>

lemmas eval_defs = imagesAfter_def initialState_def processFiles_def compressAllImages_def
  startMarks_def startTask_def skipped_def markCompressing_def newImage_def settle_def
  resolveImage_def compressImage_def removeAt_def setCompressionQuality_def
  handleRemoveImage_def Let_def photo_def logo_def banner_def

lemma run_append:
  "run (es @ fs) s = (case run es s of None \<Rightarrow> None | Some s' \<Rightarrow> run fs s')"
  by (induction es arbitrary: s) (auto split: option.splits)





lemma promiseAll_Some_iff: "promiseAll ts = Some rs \<longleftrightarrow> map task_result ts = map Some rs"
proof (induction ts arbitrary: rs)
  case Nil
  then show ?case by auto
next
  case (Cons t ts)
  note IH = Cons.IH
  show ?case
  proof (cases rs)
    case Nil
    then show ?thesis by (auto split: option.splits)
  next
    case (Cons r rs')
    with IH [of rs'] show ?thesis by (auto split: option.splits)
  qed
qed

lemma promiseAll_None_iff: "promiseAll ts = None \<longleftrightarrow> (\<exists>t \<in> set ts. task_result t = None)"
  by (induction ts) (auto split: option.splits)

lemma promiseAll_records:
  "list_all (task_records P) ts \<Longrightarrow> promiseAll ts = Some rs \<Longrightarrow> list_all P rs"
  by (induction ts arbitrary: rs) (auto simp: task_records_def split: option.splits)

lemma markCompressing_records:
  assumes "\<And>r q. P r \<Longrightarrow> P (r\<lparr> status := Compressing, quality := q \<rparr>)"
  shows "list_all P prev \<Longrightarrow> list_all P (markCompressing q img prev)"
  using assms by (auto simp: markCompressing_def list_all_iff)

lemma startMarks_records:
  assumes "\<And>r q. P r \<Longrightarrow> P (r\<lparr> status := Compressing, quality := q \<rparr>)"
  shows "list_all P prev \<Longrightarrow> list_all P (startMarks q cur prev)"
  unfolding startMarks_def
proof (induction cur arbitrary: prev)
  case Nil
  then show ?case by simp
next
  case (Cons img cur)
  then show ?case using markCompressing_records [of P, OF assms] by simp
qed

lemma startTask_records: "list_all P cur \<Longrightarrow> list_all (task_records P) (map (startTask q) cur)"
  by (simp add: list_all_iff startTask_def task_records_def)

lemma compressAllImages_records:
  assumes mark: "\<And>r q. P r \<Longrightarrow> P (r\<lparr> status := Compressing, quality := q \<rparr>)"
    and cur: "list_all P cur" and s: "all_records P s"
  shows "all_records P (compressAllImages q cur s)"
proof (cases "promiseAll (map (startTask q) cur)")
  case None
  have "list_all P (startMarks q cur (images s))"
    using startMarks_records [of P, OF mark] s by (simp add: all_records_def)
  with None s startTask_records [OF cur, of q] show ?thesis
    by (simp add: compressAllImages_def all_records_def)
next
  case (Some rs)
  with promiseAll_records [OF startTask_records [OF cur, of q] Some] s show ?thesis
    by (simp add: compressAllImages_def all_records_def)
qed

lemma list_all_removeAt: "list_all Q xs \<Longrightarrow> list_all Q (removeAt n xs)"
  by (auto simp: removeAt_def list_all_iff dest: in_set_takeD in_set_dropD)

lemma list_all_update: "list_all Q xs \<Longrightarrow> Q x \<Longrightarrow> list_all Q (xs[n := x])"
  by (auto simp: list_all_iff dest!: subsetD [OF set_update_subset_insert])

lemma settle_records:
  assumes res: "\<And>q r lib. P r \<Longrightarrow> P (resolveImage q r lib)"
    and s: "all_records P s"
    and b: "b < length (batches s)" and i: "i < length (batch_tasks (batches s ! b))"
  shows "all_records P (settle b i lib s)"
proof -
  define B where "B = batches s ! b"
  define t where "t = batch_tasks B ! i"
  define ts where "ts = (batch_tasks B)[i := t\<lparr> task_result :=
     Some (resolveImage (batch_quality B) (task_img t) lib) \<rparr>]"
  have B: "list_all (task_records P) (batch_tasks B)"
    using s b by (simp add: all_records_def B_def list_all_length)
  then have t: "task_records P t"
    using i by (simp add: t_def B_def list_all_length)
  then have "task_records P (t\<lparr> task_result :=
     Some (resolveImage (batch_quality B) (task_img t) lib) \<rparr>)"
    using res by (simp add: task_records_def)
  with B have ts: "list_all (task_records P) ts"
    unfolding ts_def by (rule list_all_update)
  show ?thesis
  proof (cases "promiseAll ts")
    case None
    have "list_all (\<lambda>B. list_all (task_records P) (batch_tasks B))
            ((batches s)[b := B\<lparr> batch_tasks := ts \<rparr>])"
      using s ts by (intro list_all_update) (simp_all add: all_records_def)
    with None s show ?thesis
      by (simp add: settle_def Let_def all_records_def B_def [symmetric] t_def [symmetric]
          ts_def [symmetric])
  next
    case (Some rs)
    have "list_all (\<lambda>B. list_all (task_records P) (batch_tasks B)) (removeAt b (batches s))"
      using s by (intro list_all_removeAt) (simp add: all_records_def)
    with Some s promiseAll_records [OF ts Some] show ?thesis
      by (simp add: settle_def Let_def all_records_def B_def [symmetric] t_def [symmetric]
          ts_def [symmetric])
  qed
qed

lemma step_records:
  assumes new: "\<And>q x. P (newImage q x)"
    and mark: "\<And>r q. P r \<Longrightarrow> P (r\<lparr> status := Compressing, quality := q \<rparr>)"
    and res: "\<And>q r lib. P r \<Longrightarrow> P (resolveImage q r lib)"
    and s: "all_records P s" and st: "step e s = Some s'"
  shows "all_records P s'"
proof (cases e)
  case (SetCompressionQuality q)
  have "all_records P (s\<lparr> compressionQuality := q \<rparr>)"
    using s by (simp add: all_records_def)
  moreover have "list_all P (images s)"
    using s by (simp add: all_records_def)
  ultimately have "all_records P (compressAllImages q (images s) (s\<lparr> compressionQuality := q \<rparr>))"
    using compressAllImages_records [of P, OF mark] by simp
  with SetCompressionQuality st s show ?thesis
    by (auto simp: setCompressionQuality_def Let_def all_records_def split: if_splits)
next
  case BeginIntake
  with st s show ?thesis by (auto simp: all_records_def)
next
  case (ProcessFiles k fs)
  with st have k: "k < length (intakes s)"
    and s': "s' = processFiles (fst (intakes s ! k)) (snd (intakes s ! k)) fs
                   (s\<lparr> intakes := removeAt k (intakes s) \<rparr>)"
    by (auto split: if_splits)
  define q where "q = snd (intakes s ! k)"
  have newP: "list_all P (map (newImage q) fs)"
    using new by (simp add: list_all_iff)
  have closed: "list_all P (fst (intakes s ! k))"
    using s k by (simp add: all_records_def list_all_length)
  have "all_records P (s\<lparr> intakes := removeAt k (intakes s),
          images := images s @ map (newImage q) fs \<rparr>)"
    using s newP list_all_removeAt [of "\<lambda>c. list_all P (fst c)" "intakes s" k]
    by (simp add: all_records_def)
  then show ?thesis
    unfolding s' processFiles_def Let_def q_def [symmetric]
    using compressAllImages_records [of P, OF mark] closed newP by simp
next
  case (Settle b i lib)
  with st s show ?thesis
    using settle_records [of P, OF res] by (auto split: if_splits)
next
  case (RemoveImage rid)
  with st s show ?thesis
    by (auto simp: handleRemoveImage_def all_records_def list_all_iff)
qed

lemma run_records:
  assumes new: "\<And>q x. P (newImage q x)"
    and mark: "\<And>r q. P r \<Longrightarrow> P (r\<lparr> status := Compressing, quality := q \<rparr>)"
    and res: "\<And>q r lib. P r \<Longrightarrow> P (resolveImage q r lib)"
  shows "all_records P s \<Longrightarrow> run es s = Some s' \<Longrightarrow> all_records P s'"
proof (induction es arbitrary: s)
  case Nil
  then show ?case by simp
next
  case (Cons e es)
  then obtain s1 where s1: "step e s = Some s1" and r: "run es s1 = Some s'"
    by (auto split: option.splits)
  from step_records [of P, OF new mark res Cons.prems(1) s1] r Cons.IH show ?case
    by blast
qed

lemma initial_records: "all_records P initialState"
  by (simp add: all_records_def initialState_def)

section \<open>Record invariants\<close>

text \<open>
  Claim C1, as amended. In every state reachable from page load, a record of the
  collection whose status is \<^verbatim>\<open>completed\<close> holds its compressed payload (blob and
  preview), and a record whose status is \<^verbatim>\<open>pending\<close> or \<^verbatim>\<open>error\<close> holds none. Nothing
  is promised for a record whose status is \<^verbatim>\<open>compressing\<close>: the updater that marks it
  leaves the payload fields as they were.
\<close>

theorem payload_matches_status_unless_compressing:
  assumes "run es initialState = Some s" and "r \<in> set (images s)"
  shows "(status r = Completed \<longrightarrow> compressedBlob r \<noteq> None \<and> compressedUrl r \<noteq> None) \<and>
         (status r = Pending \<or> status r = Error \<longrightarrow>
            compressedBlob r = None \<and> compressedUrl r = None) \<and>
         map compressedBlob (markCompressing q img (images s)) = map compressedBlob (images s) \<and>
         map compressedUrl (markCompressing q img (images s)) = map compressedUrl (images s)"
proof -
  have "all_records payload_inv s"
  proof (rule run_records [OF _ _ _ initial_records assms(1)])
    show "payload_inv (newImage q x)" for q x
      by (cases x) (simp add: payload_inv_def newImage_def)
    show "payload_inv r \<Longrightarrow> payload_inv (r\<lparr> status := Compressing, quality := q \<rparr>)" for r q
      by (simp add: payload_inv_def)
    show "payload_inv r \<Longrightarrow> payload_inv (resolveImage q r lib)" for q r lib
      by (simp add: payload_inv_def resolveImage_def split: sum.splits prod.splits)
  qed
  with assms(2) show ?thesis
    by (simp add: all_records_def list_all_iff payload_inv_def markCompressing_def)
qed

text \<open>
  One file is taken in and compressed successfully: the record is \<^verbatim>\<open>completed\<close> and,
  by the theorem, holds a payload.
\<close>

theorem payload_matches_status_unless_compressing_witness:
  "status (hd (imagesAfter [BeginIntake, ProcessFiles 0 [(photo, ''data:o'', 1000)],
          Settle 0 0 (Inr (Blob [1, 2, 3], ''data:c''))])) = Completed \<and>
   compressedBlob (hd (imagesAfter [BeginIntake, ProcessFiles 0 [(photo, ''data:o'', 1000)],
          Settle 0 0 (Inr (Blob [1, 2, 3], ''data:c''))])) \<noteq> None"
proof -
  let ?es = "[BeginIntake, ProcessFiles 0 [(photo, ''data:o'', 1000)],
          Settle 0 0 (Inr (Blob [1, 2, 3], ''data:c''))]"
  obtain s where s: "run ?es initialState = Some s"
    by (simp add: eval_defs)
  have im: "imagesAfter ?es = images s"
    using s by (simp add: imagesAfter_def)
  have "map status (imagesAfter ?es) = [Completed]"
    by (simp add: eval_defs)
  with im have st: "map status (images s) = [Completed]" by simp
  then obtain r where r: "images s = [r]" by auto
  then have "r \<in> set (images s)" by simp
  from payload_matches_status_unless_compressing [OF s this] st r im show ?thesis by auto
qed

text \<open>
  The invariant as the data model words it does not hold at every instant. A file is
  taken in and compressed at quality 80; the slider then moves to 50. While the second
  run is in flight the record is \<^verbatim>\<open>compressing\<close> and still carries the blob of the
  first run.
\<close>

theorem compressing_record_holds_payload:
  "\<not> list_all payload_iff_completed
       (imagesAfter [BeginIntake, ProcessFiles 0 [(photo, ''data:o'', 1000)],
          Settle 0 0 (Inr (Blob [1, 2, 3], ''data:c'')), SetCompressionQuality 50]) \<and>
   map status
       (imagesAfter [BeginIntake, ProcessFiles 0 [(photo, ''data:o'', 1000)],
          Settle 0 0 (Inr (Blob [1, 2, 3], ''data:c'')), SetCompressionQuality 50])
     = [Compressing] \<and>
   map compressedBlob
       (imagesAfter [BeginIntake, ProcessFiles 0 [(photo, ''data:o'', 1000)],
          Settle 0 0 (Inr (Blob [1, 2, 3], ''data:c'')), SetCompressionQuality 50])
     = [Some (Blob [1, 2, 3])]"
  by (simp add: eval_defs payload_iff_completed_def)

text \<open>
  Claim C6, as amended. In every state reachable from page load, a record of the
  collection whose status is \<^verbatim>\<open>error\<close> carries an error message, and a record whose
  status is \<^verbatim>\<open>pending\<close> or \<^verbatim>\<open>completed\<close> carries none. Nothing is promised for a record
  whose status is \<^verbatim>\<open>compressing\<close>: the updater that marks it leaves the message as it
  was.
\<close>

theorem error_matches_status_unless_compressing:
  assumes "run es initialState = Some s" and "r \<in> set (images s)"
  shows "(status r = Error \<longrightarrow> error r \<noteq> None) \<and>
         (status r = Pending \<or> status r = Completed \<longrightarrow> error r = None) \<and>
         map error (markCompressing q img (images s)) = map error (images s)"
proof -
  have "all_records error_inv s"
  proof (rule run_records [OF _ _ _ initial_records assms(1)])
    show "error_inv (newImage q x)" for q x
      by (cases x) (simp add: error_inv_def newImage_def)
    show "error_inv r \<Longrightarrow> error_inv (r\<lparr> status := Compressing, quality := q \<rparr>)" for r q
      by (simp add: error_inv_def)
    show "error_inv r \<Longrightarrow> error_inv (resolveImage q r lib)" for q r lib
      by (simp add: error_inv_def resolveImage_def split: sum.splits prod.splits)
  qed
  with assms(2) show ?thesis
    by (simp add: all_records_def list_all_iff error_inv_def markCompressing_def)
qed

text \<open>
  One file is taken in and its compression fails: the record is in \<^verbatim>\<open>error\<close> and, by
  the theorem, carries a message.
\<close>

theorem error_matches_status_unless_compressing_witness:
  "status (hd (imagesAfter [BeginIntake, ProcessFiles 0 [(photo, ''data:o'', 1000)],
          Settle 0 0 (Inl ''decode failed'')])) = Error \<and>
   error (hd (imagesAfter [BeginIntake, ProcessFiles 0 [(photo, ''data:o'', 1000)],
          Settle 0 0 (Inl ''decode failed'')])) \<noteq> None"
proof -
  let ?es = "[BeginIntake, ProcessFiles 0 [(photo, ''data:o'', 1000)],
          Settle 0 0 (Inl ''decode failed'')]"
  obtain s where s: "run ?es initialState = Some s"
    by (simp add: eval_defs)
  have im: "imagesAfter ?es = images s"
    using s by (simp add: imagesAfter_def)
  have "map status (imagesAfter ?es) = [Error]"
    by (simp add: eval_defs)
  with im have st: "map status (images s) = [Error]" by simp
  then obtain r where r: "images s = [r]" by auto
  then have "r \<in> set (images s)" by simp
  from error_matches_status_unless_compressing [OF s this] st r im show ?thesis by auto
qed

text \<open>
  The invariant as the data model words it does not hold at every instant. The
  compression of a file fails at quality 80; the slider then moves to 50. While the
  retry is in flight the record is \<^verbatim>\<open>compressing\<close> and still carries the message of the
  failed run.
\<close>

theorem compressing_record_holds_error:
  "\<not> list_all error_iff_error_status
       (imagesAfter [BeginIntake, ProcessFiles 0 [(photo, ''data:o'', 1000)],
          Settle 0 0 (Inl ''decode failed''), SetCompressionQuality 50]) \<and>
   map status
       (imagesAfter [BeginIntake, ProcessFiles 0 [(photo, ''data:o'', 1000)],
          Settle 0 0 (Inl ''decode failed''), SetCompressionQuality 50])
     = [Compressing] \<and>
   map error
       (imagesAfter [BeginIntake, ProcessFiles 0 [(photo, ''data:o'', 1000)],
          Settle 0 0 (Inl ''decode failed''), SetCompressionQuality 50])
     = [Some ''Failed to compress image: photo.jpg. decode failed'']"
  by (simp add: eval_defs error_iff_error_status_def)

section \<open>Removal\<close>

text \<open>
  Claim C7, as amended. \<^verbatim>\<open>handleRemoveImage\<close> keeps, in order and untouched, exactly the
  records whose id differs from the given one, starts no batch and changes nothing else
  in the state. When exactly one record carries the id, exactly that record goes.
\<close>

theorem handleRemoveImage_filters_by_id:
  assumes "step (RemoveImage rid) s = Some s'"
  shows "images s' = filter (\<lambda>img. img_id img \<noteq> rid) (images s) \<and>
         batches s' = batches s \<and> intakes s' = intakes s \<and>
         compressionQuality s' = compressionQuality s \<and>
         (\<forall>xs r ys. images s = xs @ r # ys \<and> img_id r = rid \<and>
             (\<forall>x \<in> set (xs @ ys). img_id x \<noteq> rid) \<longrightarrow>
             images s' = xs @ ys \<and> length (images s') + 1 = length (images s))"
  using assms by (auto simp: handleRemoveImage_def)

text \<open>
  Three images, ids all different; removing the second leaves the first and the third.
\<close>

theorem handleRemoveImage_filters_by_id_witness:
  "map img_id (imagesAfter threeImages) = [''photo.jpg-1000'', ''logo.png-1001'', ''banner.webp-1002''] \<and>
   map img_id (imagesAfter (threeImages @ [RemoveImage ''logo.png-1001'']))
     = [''photo.jpg-1000'', ''banner.webp-1002'']"
proof -
  obtain s where s: "run threeImages initialState = Some s"
    by (simp add: eval_defs threeImages_def)
  have im: "imagesAfter threeImages = images s"
    using s by (simp add: imagesAfter_def)
  have ids: "map img_id (imagesAfter threeImages)
     = [''photo.jpg-1000'', ''logo.png-1001'', ''banner.webp-1002'']"
    by (simp add: eval_defs threeImages_def)
  with im obtain r1 r2 r3 where rs: "images s = [r1] @ r2 # [r3]"
    and i1: "img_id r1 = ''photo.jpg-1000''" and i2: "img_id r2 = ''logo.png-1001''"
    and i3: "img_id r3 = ''banner.webp-1002''"
    by (auto simp: map_eq_Cons_conv)
  obtain s' where s': "step (RemoveImage ''logo.png-1001'') s = Some s'"
    by simp
  have "imagesAfter (threeImages @ [RemoveImage ''logo.png-1001'']) = images s'"
    using s s' by (simp add: imagesAfter_def run_append)
  moreover have "images s' = [r1] @ [r3]"
  proof -
    from handleRemoveImage_filters_by_id [OF s'] have "images s = [r1] @ r2 # [r3] \<and> img_id r2 = ''logo.png-1001'' \<and>
        (\<forall>x \<in> set ([r1] @ [r3]). img_id x \<noteq> ''logo.png-1001'') \<longrightarrow>
        images s' = [r1] @ [r3] \<and> length (images s') + 1 = length (images s)"
      by blast
    with rs i1 i2 i3 show ?thesis by simp
  qed
  ultimately show ?thesis using ids i1 i3 by simp
qed

text \<open>
  The id is the file name and the clock reading. Two files of the same name (from two
  dropped folders, say) read within the same millisecond get the same id, and removing
  one of the two cards removes both records.
\<close>

theorem handleRemoveImage_removes_both_of_a_shared_id:
  "map img_id (imagesAfter
      [BeginIntake,
       ProcessFiles 0 [(photo, ''data:o'', 1000), (photo, ''data:p'', 1000)],
       Settle 0 0 (Inr (Blob [1, 2, 3], ''data:c'')),
       Settle 0 1 (Inr (Blob [4, 5], ''data:d''))]) = [''photo.jpg-1000'', ''photo.jpg-1000''] \<and>
   imagesAfter
      [BeginIntake,
       ProcessFiles 0 [(photo, ''data:o'', 1000), (photo, ''data:p'', 1000)],
       Settle 0 0 (Inr (Blob [1, 2, 3], ''data:c'')),
       Settle 0 1 (Inr (Blob [4, 5], ''data:d'')),
       RemoveImage ''photo.jpg-1000''] = []"
  by (simp add: eval_defs)

section \<open>Download names\<close>

lemma stripExtension_stem:
  assumes "ext \<noteq> []" and "CHR ''.'' \<notin> set ext" and "CHR ''/'' \<notin> set ext"
  shows "stripExtension (st @ ''.'' @ ext) = st"
proof -
  let ?s = "st @ ''.'' @ ext"
  let ?n = "length st"
  have here: "extMatchAt ?s ?n"
    using assms by (auto simp: extMatchAt_def list_all_iff)
  have before: "\<not> extMatchAt ?s j" if "j < ?n" for j
  proof -
    have "CHR ''.'' \<in> set (drop (Suc j) ?s)"
      using that by (simp add: Suc_le_eq)
    then show ?thesis by (auto simp: extMatchAt_def list_all_iff)
  qed
  have "find (extMatchAt ?s) [0..<length ?s] = Some ?n"
    unfolding find_Some_iff
    using here before by (intro exI [of _ ?n]) (auto simp: nth_append)
  then show ?thesis by (simp add: stripExtension_def)
qed

lemma sample_stems:
  "stripExtension ''photo.jpg'' = ''photo''"
  "stripExtension ''logo.png'' = ''logo''"
  "stripExtension ''banner.webp'' = ''banner''"
  using stripExtension_stem [of "''jpg''" "''photo''"] stripExtension_stem [of "''png''" "''logo''"]
    stripExtension_stem [of "''webp''" "''banner''"]
  by simp_all



section \<open>Export of all records\<close>

lemma completed_has_blob:
  assumes "run es initialState = Some s" and "r \<in> set (images s)" and "status r = Completed"
  shows "compressedBlob r \<noteq> None"
proof -
  let ?P = "\<lambda>r. status r = Completed \<longrightarrow> compressedBlob r \<noteq> None"
  have "all_records ?P s"
  proof (rule run_records [OF _ _ _ initial_records assms(1)])
    show "?P (newImage q x)" for q x
      by (cases x) (simp add: newImage_def)
    show "?P r \<Longrightarrow> ?P (r\<lparr> status := Compressing, quality := q \<rparr>)" for r q
      by simp
    show "?P r \<Longrightarrow> ?P (resolveImage q r lib)" for q r lib
      by (simp add: resolveImage_def split: sum.splits prod.splits)
  qed
  with assms(2,3) show ?thesis
    by (simp add: all_records_def list_all_iff)
qed

lemma fold_zip_file_distinct:
  "distinct (map fst (z @ fs)) \<Longrightarrow> fold zip_file fs z = z @ fs"
proof (induction fs arbitrary: z)
  case Nil
  then show ?case by simp
next
  case (Cons f fs)
  then have "fst f \<notin> fst ` set z" by auto
  then have "zip_file f z = z @ [f]" by (simp add: zip_file_def)
  moreover have "distinct (map fst ((z @ [f]) @ fs))" using Cons.prems by simp
  ultimately show ?case using Cons.IH [of "z @ [f]"] by simp
qed

lemma filesToZip_entries:
  "\<forall>r \<in> set cs. compressedBlob r \<noteq> None \<Longrightarrow>
   map fst (filesToZip cs) = map downloadName cs \<and>
   map (\<lambda>e. Some (snd e)) (filesToZip cs) = map compressedBlob cs"
  by (induction cs) (auto simp: filesToZip_def)

text \<open>
  In a reachable state \<^verbatim>\<open>handleDownloadAll\<close> goes by the number of completed records:
  none, no action; exactly one, the download that \<^verbatim>\<open>handleDownload\<close> makes for that
  record; more than one with download names that are all different, an archive with
  one entry per completed record, or an alert when the generator rejects.
\<close>

lemma handleDownloadAll_distinct_names:
  assumes "run es initialState = Some s"
  shows "(filter (\<lambda>r. status r = Completed) (images s) = [] \<longrightarrow>
            handleDownloadAll generate (images s) = []) \<and>
         (\<forall>img. filter (\<lambda>r. status r = Completed) (images s) = [img] \<longrightarrow>
            handleDownloadAll generate (images s) = handleDownload img \<and>
            (\<exists>blob. compressedBlob img = Some blob \<and>
               handleDownload img =
                 [Download (''compressed_'' @ stripExtension (name (img_file img)) @ ''.'' @
                            getFileExtension (type (img_file img))) blob])) \<and>
         (1 < length (filter (\<lambda>r. status r = Completed) (images s)) \<and>
          distinct (map downloadName (filter (\<lambda>r. status r = Completed) (images s))) \<longrightarrow>
            (\<exists>entries.
               map fst entries = map downloadName (filter (\<lambda>r. status r = Completed) (images s)) \<and>
               map (\<lambda>e. Some (snd e)) entries =
                 map compressedBlob (filter (\<lambda>r. status r = Completed) (images s)) \<and>
               handleDownloadAll generate (images s) =
                 (case generate entries of
                    Inr zipBlob \<Rightarrow> [Download ''LitePress_Compressed_Images.zip'' zipBlob]
                  | Inl err \<Rightarrow> [Alert ''Failed to create ZIP file.''])))"
proof -
  let ?cs = "filter (\<lambda>r. status r = Completed) (images s)"
  have cs: "completedImages (images s) = ?cs"
    unfolding completedImages_def
    using completed_has_blob [OF assms] by (intro filter_cong) auto
  have blobs: "\<forall>r \<in> set ?cs. compressedBlob r \<noteq> None"
    using completed_has_blob [OF assms] by auto
  have none: "?cs = [] \<longrightarrow> handleDownloadAll generate (images s) = []"
    by (simp add: handleDownloadAll_def cs)
  have one: "\<forall>img. ?cs = [img] \<longrightarrow>
            handleDownloadAll generate (images s) = handleDownload img \<and>
            (\<exists>blob. compressedBlob img = Some blob \<and>
               handleDownload img =
                 [Download (''compressed_'' @ stripExtension (name (img_file img)) @ ''.'' @
                            getFileExtension (type (img_file img))) blob])"
  proof (intro allI impI)
    fix img assume eq: "?cs = [img]"
    with blobs obtain blob where "compressedBlob img = Some blob" by auto
    with eq show "handleDownloadAll generate (images s) = handleDownload img \<and>
            (\<exists>blob. compressedBlob img = Some blob \<and>
               handleDownload img =
                 [Download (''compressed_'' @ stripExtension (name (img_file img)) @ ''.'' @
                            getFileExtension (type (img_file img))) blob])"
      by (simp add: handleDownloadAll_def cs handleDownload_def downloadName_def)
  qed
  have many: "1 < length ?cs \<and> distinct (map downloadName ?cs) \<longrightarrow>
            (\<exists>entries.
               map fst entries = map downloadName ?cs \<and>
               map (\<lambda>e. Some (snd e)) entries = map compressedBlob ?cs \<and>
               handleDownloadAll generate (images s) =
                 (case generate entries of
                    Inr zipBlob \<Rightarrow> [Download ''LitePress_Compressed_Images.zip'' zipBlob]
                  | Inl err \<Rightarrow> [Alert ''Failed to create ZIP file.'']))"
  proof
    assume a: "1 < length ?cs \<and> distinct (map downloadName ?cs)"
    then obtain a b rest where eq: "?cs = a # b # rest"
      by (cases ?cs; cases "tl ?cs") auto
    have "distinct (map fst ([] @ filesToZip ?cs))"
      using a filesToZip_entries [OF blobs] by simp
    then have f: "fold zip_file (filesToZip ?cs) [] = filesToZip ?cs"
      using fold_zip_file_distinct [of "[]" "filesToZip ?cs"] by simp
    have "handleDownloadAll generate (images s) =
                 (case generate (filesToZip ?cs) of
                    Inr zipBlob \<Rightarrow> [Download ''LitePress_Compressed_Images.zip'' zipBlob]
                  | Inl err \<Rightarrow> [Alert ''Failed to create ZIP file.''])"
      using f by (simp add: handleDownloadAll_def cs createZip_def eq)
    with filesToZip_entries [OF blobs] show "\<exists>entries.
               map fst entries = map downloadName ?cs \<and>
               map (\<lambda>e. Some (snd e)) entries = map compressedBlob ?cs \<and>
               handleDownloadAll generate (images s) =
                 (case generate entries of
                    Inr zipBlob \<Rightarrow> [Download ''LitePress_Compressed_Images.zip'' zipBlob]
                  | Inl err \<Rightarrow> [Alert ''Failed to create ZIP file.''])"
      by blast
  qed
  from none one many show ?thesis by blast
qed

lemma photoJpeg_stem: "stripExtension ''photo.jpeg'' = ''photo''"
  using stripExtension_stem [of "''jpeg''" "''photo''"] by simp

text \<open>
  Claim C5 says that with more than one completed record the archive bundles every
  completed record's payload under its derived name. \<^verbatim>\<open>photo.jpg\<close> and \<^verbatim>\<open>photo.jpeg\<close>, both
  of type \<^verbatim>\<open>image/jpeg\<close>, derive the same name \<^verbatim>\<open>compressed_photo.jpg\<close>. The second
  \<^verbatim>\<open>zip.file\<close> call replaces the entry of the first: the archive that is offered holds
  one entry, and the payload of the first record is not in it.
\<close>

theorem createZip_replaces_same_name:
  "map status (imagesAfter sameStem) = [Completed, Completed] \<and>
   map compressedBlob (imagesAfter sameStem) = [Some (Blob [1, 2, 3]), Some (Blob [4, 5])] \<and>
   map downloadName (imagesAfter sameStem) = [''compressed_photo.jpg'', ''compressed_photo.jpg''] \<and>
   fold zip_file (filesToZip (completedImages (imagesAfter sameStem))) []
     = [(''compressed_photo.jpg'', Blob [4, 5])] \<and>
   handleDownloadAll storeOnly (imagesAfter sameStem)
     = [Download ''LitePress_Compressed_Images.zip'' (Blob [2])]"
proof -
  have st: "map status (imagesAfter sameStem) = [Completed, Completed]"
    and bl: "map compressedBlob (imagesAfter sameStem) = [Some (Blob [1, 2, 3]), Some (Blob [4, 5])]"
    by (simp_all add: eval_defs sameStem_def photoJpeg_def)
  have nm: "map downloadName (imagesAfter sameStem)
      = [''compressed_photo.jpg'', ''compressed_photo.jpg'']"
    by (simp add: eval_defs sameStem_def photoJpeg_def downloadName_def getFileExtension_def
        sample_stems photoJpeg_stem)
  from st bl nm obtain r0 r1 where rs: "imagesAfter sameStem = [r0, r1]"
    and r0: "status r0 = Completed" "compressedBlob r0 = Some (Blob [1, 2, 3])"
      "downloadName r0 = ''compressed_photo.jpg''"
    and r1: "status r1 = Completed" "compressedBlob r1 = Some (Blob [4, 5])"
      "downloadName r1 = ''compressed_photo.jpg''"
    by (auto simp: map_eq_Cons_conv)
  have z: "fold zip_file (filesToZip (completedImages (imagesAfter sameStem))) []
     = [(''compressed_photo.jpg'', Blob [4, 5])]"
    unfolding rs using r0 r1 by (simp add: completedImages_def filesToZip_def zip_file_def)
  have "handleDownloadAll storeOnly (imagesAfter sameStem)
     = [Download ''LitePress_Compressed_Images.zip'' (Blob [2])]"
    using z unfolding rs using r0 r1
    by (simp add: handleDownloadAll_def completedImages_def createZip_def storeOnly_def)
  with st bl nm z show ?thesis by blast
qed

section \<open>Byte formatting\<close>

lemma toFixed2_quotient:
  assumes "0 < d"
  shows "toFixed2 (real b / real d) = (200 * b + d) div (2 * d)"
proof -
  have "real b / real d * 100 + 1 / 2 = real (200 * b + d) / real (2 * d)"
    using assms by (simp add: field_simps)
  then have "\<lfloor>real b / real d * 100 + 1 / 2\<rfloor> = int ((200 * b + d) div (2 * d))"
    by (simp only: floor_divide_of_nat_eq)
  then show ?thesis by (simp add: toFixed2_def)
qed

lemma formatBytes_unit:
  assumes "0 < b"
  shows "formatBytes L (Some b) =
     numberToString ((200 * b + 1024 ^ L b 1024) div (2 * 1024 ^ L b 1024)) @ '' '' @
     sizes_at (L b 1024)"
  using assms toFixed2_quotient [of "1024 ^ L b 1024" b]
  by (simp add: formatBytes_def Let_def)







text \<open>
  Just below \<open>2 ^ 50\<close> double arithmetic is not exact: the exponent is 5, past the end
  of the unit table.
\<close>

lemma formatBytes_just_below_2_50:
  "formatBytes doubleFloorLog (Some (2 ^ 50 - 1)) = ''1 undefined''"
  using formatBytes_unit [of "2 ^ 50 - 1" doubleFloorLog]
  by (simp add: doubleFloorLog_def numberToString_def sizes_at_def sizes_def)

section \<open>Directory traversal\<close>

lemma fold_processEntry_files:
  "fold processEntry (map FileEntry fs) acc = acc @ filter accepted fs"
  by (induction fs arbitrary: acc) auto

lemma allFiles_files: "concat (map allFiles (map FileEntry fs)) = fs"
  by (induction fs) auto

text \<open>
  Where every reader returns all entries of its directory in its first batch,
  \<^verbatim>\<open>processEntry\<close> reaches every file of the tree, at any depth, and keeps those that
  pass the MIME test.
\<close>

lemma processEntry_single_batch:
  "singleBatch e \<Longrightarrow> processEntry e acc = acc @ filter accepted (allFiles e)"
proof (induction e acc rule: processEntry.induct)
  case (1 f files)
  then show ?case by simp
next
  case (2 files)
  then show ?case by simp
next
  case (3 entries later files)
  from "3.prems" have later: "later = []" and sb: "list_all singleBatch entries"
    by simp_all
  have "fold processEntry es acc = acc @ filter accepted (concat (map allFiles es))"
    if "set es \<subseteq> set entries" for es acc
    using that
  proof (induction es arbitrary: acc)
    case Nil
    then show ?case by simp
  next
    case (Cons x es)
    then have "x \<in> set entries" by simp
    with sb have "singleBatch x" by (simp add: list_all_iff)
    with "3.IH" [OF \<open>x \<in> set entries\<close>] Cons show ?case by simp
  qed
  then show ?case using later by simp
qed

text \<open>
  Claim C4 says that every JPEG, PNG or WebP file below a dropped directory produces a
  record, however many entries a directory holds. \<^verbatim>\<open>processEntry\<close> calls
  \<^verbatim>\<open>readEntries\<close> once per directory. For a directory of 101 images whose reader hands
  over 100 entries in its first batch and the last one in its second, only the first
  100 files reach \<^verbatim>\<open>processFiles\<close>.
\<close>

theorem processEntry_reads_first_batch_only:
  "handleDrop_files
     [FileItem (Some (DirectoryEntry [map FileEntry (replicate 100 photo), [FileEntry logo]])) None]
     = replicate 100 photo \<and>
   filter accepted (allFiles (DirectoryEntry [map FileEntry (replicate 100 photo), [FileEntry logo]]))
     = replicate 100 photo @ [logo]"
proof -
  have a: "accepted photo" "accepted logo"
    by (simp_all add: accepted_def startsWith_def photo_def logo_def)
  then have f: "filter accepted (replicate 100 photo) = replicate 100 photo"
    by simp
  have "fold processEntry (map FileEntry (replicate 100 photo)) [] = replicate 100 photo"
    by (simp only: fold_processEntry_files f append_Nil)
  then have 1: "handleDrop_files
     [FileItem (Some (DirectoryEntry [map FileEntry (replicate 100 photo), [FileEntry logo]])) None]
     = replicate 100 photo"
    by (simp only: handleDrop_files_def fold_simps dropItem.simps processEntry.simps)
  have "allFiles (DirectoryEntry [map FileEntry (replicate 100 photo), [FileEntry logo]])
     = replicate 100 photo @ [logo]"
    by (simp only: allFiles.simps list.map concat.simps allFiles_files append_Nil2)
  with a f have 2: "filter accepted
     (allFiles (DirectoryEntry [map FileEntry (replicate 100 photo), [FileEntry logo]]))
     = replicate 100 photo @ [logo]"
    by simp
  from 1 2 show ?thesis by blast
qed

section \<open>Batches\<close>

lemma promiseAll_length: "promiseAll ts = Some rs \<Longrightarrow> length rs = length ts"
  using promiseAll_Some_iff [of ts rs] by (metis length_map)

lemma promiseAll_nth:
  "promiseAll ts = Some rs \<Longrightarrow> j < length ts \<Longrightarrow> task_result (ts ! j) = Some (rs ! j)"
  using promiseAll_Some_iff [of ts rs] by (metis length_map nth_map)

lemma startMarks_length: "length (startMarks q cur prev) = length prev"
  unfolding startMarks_def
  by (induction cur arbitrary: prev) (simp_all add: markCompressing_def)

lemma startMarks_nth:
  "j < length prev \<Longrightarrow>
   startMarks q cur prev ! j =
     (if \<exists>img \<in> set cur. \<not> skipped q img \<and> img_id img = img_id (prev ! j)
      then (prev ! j)\<lparr> status := Compressing, quality := q \<rparr> else prev ! j)"
  unfolding startMarks_def
proof (induction cur arbitrary: prev)
  case Nil
  then show ?case by simp
next
  case (Cons c cur)
  show ?case
  proof (cases "skipped q c")
    case True
    with Cons show ?thesis by auto
  next
    case False
    have len: "j < length (markCompressing q c prev)"
      using Cons.prems by (simp add: markCompressing_def)
    have id: "img_id (markCompressing q c prev ! j) = img_id (prev ! j)"
      using Cons.prems by (simp add: markCompressing_def)
    show ?thesis
      using False Cons.IH [OF len] Cons.prems
      by (auto simp: id) (auto simp: markCompressing_def)
  qed
qed

lemma settle_unfinished:
  assumes i: "i < length (batch_tasks (batches s ! b))"
    and other: "\<exists>j < length (batch_tasks (batches s ! b)). j \<noteq> i \<and>
                   task_result (batch_tasks (batches s ! b) ! j) = None"
  shows "images (settle b i lib s) = images s \<and>
         length (batches (settle b i lib s)) = length (batches s)"
proof -
  define B where "B = batches s ! b"
  define t where "t = batch_tasks B ! i"
  define ts where "ts = (batch_tasks B)[i := t\<lparr> task_result :=
     Some (resolveImage (batch_quality B) (task_img t) lib) \<rparr>]"
  from other obtain j where j: "j < length (batch_tasks B)" "j \<noteq> i"
    "task_result (batch_tasks B ! j) = None"
    unfolding B_def by blast
  then have "j < length ts" "task_result (ts ! j) = None"
    by (simp_all add: ts_def nth_list_update)
  then have "promiseAll ts = None"
    unfolding promiseAll_None_iff using nth_mem by blast
  then show ?thesis
    by (simp add: settle_def Let_def B_def [symmetric] t_def [symmetric] ts_def [symmetric])
qed

lemma settle_finished:
  assumes i: "i < length (batch_tasks (batches s ! b))"
    and other: "\<forall>j < length (batch_tasks (batches s ! b)). j \<noteq> i \<longrightarrow>
                   task_result (batch_tasks (batches s ! b) ! j) \<noteq> None"
  shows "length (images (settle b i lib s)) = length (batch_tasks (batches s ! b)) \<and>
         images (settle b i lib s) ! i =
           resolveImage (batch_quality (batches s ! b))
             (task_img (batch_tasks (batches s ! b) ! i)) lib \<and>
         (\<forall>j < length (batch_tasks (batches s ! b)). j \<noteq> i \<longrightarrow>
            task_result (batch_tasks (batches s ! b) ! j) = Some (images (settle b i lib s) ! j)) \<and>
         batches (settle b i lib s) = removeAt b (batches s)"
proof -
  define B where "B = batches s ! b"
  define t where "t = batch_tasks B ! i"
  define ts where "ts = (batch_tasks B)[i := t\<lparr> task_result :=
     Some (resolveImage (batch_quality B) (task_img t) lib) \<rparr>]"
  have "\<forall>x \<in> set ts. task_result x \<noteq> None"
  proof
    fix x assume "x \<in> set ts"
    then obtain j where j: "j < length ts" "x = ts ! j"
      by (auto simp: in_set_conv_nth)
    with other show "task_result x \<noteq> None"
      by (cases "j = i") (auto simp: ts_def B_def nth_list_update)
  qed
  then obtain rs where rs: "promiseAll ts = Some rs"
    using promiseAll_None_iff [of ts] by (cases "promiseAll ts") auto
  have im: "images (settle b i lib s) = rs" "batches (settle b i lib s) = removeAt b (batches s)"
    using rs
    by (simp_all add: settle_def Let_def B_def [symmetric] t_def [symmetric] ts_def [symmetric])
  have len: "length rs = length (batch_tasks B)"
    using promiseAll_length [OF rs] by (simp add: ts_def)
  have nth: "task_result (ts ! j) = Some (rs ! j)" if "j < length (batch_tasks B)" for j
    using promiseAll_nth [OF rs, of j] that by (simp add: ts_def)
  have "rs ! i = resolveImage (batch_quality B) (task_img t) lib"
    using nth [of i] i by (simp add: ts_def B_def nth_list_update)
  moreover have "\<forall>j < length (batch_tasks B). j \<noteq> i \<longrightarrow>
      task_result (batch_tasks B ! j) = Some (rs ! j)"
  proof (intro allI impI)
    fix j assume "j < length (batch_tasks B)" "j \<noteq> i"
    then show "task_result (batch_tasks B ! j) = Some (rs ! j)"
      using nth [of j] by (simp add: ts_def nth_list_update)
  qed
  ultimately show ?thesis
    using im len by (simp add: B_def t_def)
qed

lemma compressAllImages_in_flight:
  assumes "promiseAll (map (startTask q) cur) = None"
  shows "images (compressAllImages q cur s) = startMarks q cur (images s) \<and>
         batches (compressAllImages q cur s) =
           batches s @ [\<lparr> batch_quality = q, batch_tasks = map (startTask q) cur \<rparr>]"
  using assms by (simp add: compressAllImages_def)








text \<open>
  Claim C2. When the pipeline call of one record of a batch comes back while another
  one of the same batch is still unresolved, the collection does not change. When it
  is the last one, the collection becomes the list of the results of all tasks of the
  batch, in order. At the start of a batch that has something to wait for, every record
  of the collection is either left as it was or only marked \<^verbatim>\<open>compressing\<close> at the new
  quality: no result is published then either.
\<close>

theorem results_published_only_when_batch_complete:
  assumes "step (Settle b i lib) s = Some s'"
  shows "((\<exists>j < length (batch_tasks (batches s ! b)). j \<noteq> i \<and>
             task_result (batch_tasks (batches s ! b) ! j) = None) \<longrightarrow>
            images s' = images s) \<and>
         ((\<forall>j < length (batch_tasks (batches s ! b)). j \<noteq> i \<longrightarrow>
             task_result (batch_tasks (batches s ! b) ! j) \<noteq> None) \<longrightarrow>
            length (images s') = length (batch_tasks (batches s ! b)) \<and>
            images s' ! i =
              resolveImage (batch_quality (batches s ! b))
                (task_img (batch_tasks (batches s ! b) ! i)) lib \<and>
            (\<forall>j < length (batch_tasks (batches s ! b)). j \<noteq> i \<longrightarrow>
               task_result (batch_tasks (batches s ! b) ! j) = Some (images s' ! j))) \<and>
         (\<forall>q cur s0. promiseAll (map (startTask q) cur) = None \<longrightarrow>
            length (images (compressAllImages q cur s0)) = length (images s0) \<and>
            (\<forall>j < length (images s0).
               images (compressAllImages q cur s0) ! j = images s0 ! j \<or>
               images (compressAllImages q cur s0) ! j =
                 (images s0 ! j)\<lparr> status := Compressing, quality := q \<rparr>))"
proof -
  from assms have i: "i < length (batch_tasks (batches s ! b))" and s': "s' = settle b i lib s"
    by (auto split: if_splits)
  have 1: "(\<exists>j < length (batch_tasks (batches s ! b)). j \<noteq> i \<and>
             task_result (batch_tasks (batches s ! b) ! j) = None) \<longrightarrow>
            images s' = images s"
    using settle_unfinished [OF i, of lib] unfolding s' by blast
  have 2: "(\<forall>j < length (batch_tasks (batches s ! b)). j \<noteq> i \<longrightarrow>
             task_result (batch_tasks (batches s ! b) ! j) \<noteq> None) \<longrightarrow>
            length (images s') = length (batch_tasks (batches s ! b)) \<and>
            images s' ! i =
              resolveImage (batch_quality (batches s ! b))
                (task_img (batch_tasks (batches s ! b) ! i)) lib \<and>
            (\<forall>j < length (batch_tasks (batches s ! b)). j \<noteq> i \<longrightarrow>
               task_result (batch_tasks (batches s ! b) ! j) = Some (images s' ! j))"
    using settle_finished [OF i, of lib] unfolding s' by blast
  have 3: "\<forall>q cur s0. promiseAll (map (startTask q) cur) = None \<longrightarrow>
            length (images (compressAllImages q cur s0)) = length (images s0) \<and>
            (\<forall>j < length (images s0).
               images (compressAllImages q cur s0) ! j = images s0 ! j \<or>
               images (compressAllImages q cur s0) ! j =
                 (images s0 ! j)\<lparr> status := Compressing, quality := q \<rparr>)"
    by (simp add: compressAllImages_in_flight startMarks_length startMarks_nth)
  from 1 2 3 show ?thesis by blast
qed

text \<open>
  Two files in one batch: after the first result the collection is what it was, after
  the second it holds both results.
\<close>

theorem results_published_only_when_batch_complete_witness:
  "map status (imagesAfter twoImages) = [Compressing, Compressing] \<and>
   imagesAfter (twoImages @ [Settle 0 0 (Inr (Blob [1, 2, 3], ''data:c''))])
     = imagesAfter twoImages \<and>
   map status (imagesAfter (twoImages @ [Settle 0 0 (Inr (Blob [1, 2, 3], ''data:c'')),
      Settle 0 1 (Inl ''decode failed'')])) = [Completed, Error]"
proof -
  let ?ok = "Inr (Blob [1, 2, 3], ''data:c'') :: Outcome"
  let ?bad = "Inl ''decode failed'' :: Outcome"
  obtain s0 where s0: "run twoImages initialState = Some s0"
    by (simp add: eval_defs twoImages_def)
  have im0: "imagesAfter twoImages = images s0"
    using s0 by (simp add: imagesAfter_def)
  have b0: "map (\<lambda>B. map task_result (batch_tasks B)) (batches s0) = [[None, None]]"
    using s0 by (auto simp: eval_defs twoImages_def)
  then obtain B0 where B0: "batches s0 = [B0]" "map task_result (batch_tasks B0) = [None, None]"
    by (auto simp: map_eq_Cons_conv)
  then obtain t0 t1 where t: "batch_tasks B0 = [t0, t1]" "task_result t0 = None" "task_result t1 = None"
    by (auto simp: map_eq_Cons_conv)
  obtain s1 where s1: "step (Settle 0 0 ?ok) s0 = Some s1"
    using B0 t by simp
  have A: "images s1 = images s0"
  proof -
    have "\<exists>j < length (batch_tasks (batches s0 ! 0)). j \<noteq> 0 \<and>
             task_result (batch_tasks (batches s0 ! 0) ! j) = None"
      using B0 t by (intro exI [of _ 1]) simp
    with results_published_only_when_batch_complete [OF s1] show ?thesis by blast
  qed
  have r1: "run (twoImages @ [Settle 0 0 ?ok]) initialState = Some s1"
    using s0 s1 by (simp add: run_append)
  have b1: "map (\<lambda>B. map task_result (batch_tasks B)) (batches s1) \<noteq> [] \<and>
     length (batch_tasks (batches s1 ! 0)) = 2 \<and>
     task_result (batch_tasks (batches s1 ! 0) ! 0) \<noteq> None \<and>
     task_result (batch_tasks (batches s1 ! 0) ! 1) = None"
    using s1 B0 t by (auto simp: settle_def Let_def)
  obtain s2 where s2: "step (Settle 0 1 ?bad) s1 = Some s2"
    using b1 by (cases "batches s1") auto
  have fin: "\<forall>j < length (batch_tasks (batches s1 ! 0)). j \<noteq> 1 \<longrightarrow>
             task_result (batch_tasks (batches s1 ! 0) ! j) \<noteq> None"
    using b1 by (auto simp: less_Suc_eq numeral_2_eq_2)
  from results_published_only_when_batch_complete [OF s2] fin have C: "length (images s2) = 2"
    using b1 by simp
  have r2: "run (twoImages @ [Settle 0 0 ?ok, Settle 0 1 ?bad]) initialState = Some s2"
    using s0 s1 s2 by (simp add: run_append)
  have st0: "map status (imagesAfter twoImages) = [Compressing, Compressing]"
    by (simp add: eval_defs twoImages_def)
  have st2: "map status (imagesAfter (twoImages @ [Settle 0 0 ?ok, Settle 0 1 ?bad]))
     = [Completed, Error]"
    by (simp add: eval_defs twoImages_def)
  have "imagesAfter (twoImages @ [Settle 0 0 ?ok]) = imagesAfter twoImages"
    using A r1 im0 by (simp add: imagesAfter_def)
  with st0 st2 C show ?thesis by simp
qed












end
